theory Spec2Isabelle
  imports Main "HOL-Library.Word"
begin

unbundle bit_operations_syntax

section \<open>The A5/1 keystream generator of A51.c\<close>

text \<open>
  The source declares \<^verbatim>\<open>typedef unsigned long word; typedef word bit;
  typedef unsigned char byte;\<close>. The key handed to \<^verbatim>\<open>keysetup\<close> is a 64-bit
  constant held in a \<^verbatim>\<open>word\<close> and is shifted right by up to 63 places, which is
  only defined where \<^verbatim>\<open>unsigned long\<close> has 64 bits, so a \<^verbatim>\<open>word\<close> is
  a 64-bit machine word here and a \<^verbatim>\<open>byte\<close> an 8-bit one.
\<close>

type_synonym ulong = "64 word"
type_synonym byte = "8 word"

subsection \<open>Constants (the macros of the source)\<close>

abbreviation R1MASK :: ulong where "R1MASK \<equiv> 0x07FFFF"
abbreviation R2MASK :: ulong where "R2MASK \<equiv> 0x3FFFFF"
abbreviation R3MASK :: ulong where "R3MASK \<equiv> 0x7FFFFF"

abbreviation R1MID :: ulong where "R1MID \<equiv> 0x000100"
abbreviation R2MID :: ulong where "R2MID \<equiv> 0x000400"
abbreviation R3MID :: ulong where "R3MID \<equiv> 0x000400"

abbreviation R1TAPS :: ulong where "R1TAPS \<equiv> 0x072000"
abbreviation R2TAPS :: ulong where "R2TAPS \<equiv> 0x300000"
abbreviation R3TAPS :: ulong where "R3TAPS \<equiv> 0x700080"

abbreviation R1SHIFT :: nat where "R1SHIFT \<equiv> 64"
abbreviation R2SHIFT :: nat where "R2SHIFT \<equiv> 45"
abbreviation R3SHIFT :: nat where "R3SHIFT \<equiv> 23"

abbreviation R1SIZE :: nat where "R1SIZE \<equiv> 19"
abbreviation R2SIZE :: nat where "R2SIZE \<equiv> 22"
abbreviation R3SIZE :: nat where "R3SIZE \<equiv> 23"

subsection \<open>The registers\<close>

text \<open>The three global shift registers \<^verbatim>\<open>word R1, R2, R3;\<close> are the whole
  mutable state; every function that reads or writes them takes the state and, where
  it writes, returns the new one.\<close>

record state =
  R1 :: ulong
  R2 :: ulong
  R3 :: ulong

subsection \<open>parity, clockone, majority, clock, getbit\<close>

text \<open>\<^verbatim>\<open>bit parity(word x)\<close>: five folding steps, then the lowest bit.\<close>

definition parity :: "ulong \<Rightarrow> ulong" where
  "parity x =
     (let x = x XOR drop_bit 16 x;
          x = x XOR drop_bit 8 x;
          x = x XOR drop_bit 4 x;
          x = x XOR drop_bit 2 x;
          x = x XOR drop_bit 1 x
      in x AND 1)"

text \<open>\<^verbatim>\<open>word clockone(word reg, word mask, word taps)\<close>.\<close>

definition clockone :: "ulong \<Rightarrow> ulong \<Rightarrow> ulong \<Rightarrow> ulong" where
  "clockone reg msk taps =
     (let t = reg AND taps;
          reg = push_bit 1 reg AND msk;
          reg = reg OR parity t
      in reg)"

text \<open>\<^verbatim>\<open>bit majority(word w1, word w2, word w3)\<close>: the sum of the three
  comparisons is a C \<^verbatim>\<open>int\<close> between 0 and 3.\<close>

definition majority :: "ulong \<Rightarrow> ulong \<Rightarrow> ulong \<Rightarrow> ulong" where
  "majority w1 w2 w3 =
     (let sm = (of_bool (w1 \<noteq> 0) + of_bool (w2 \<noteq> 0) + of_bool (w3 \<noteq> 0) :: int)
      in if sm \<ge> 2 then 1 else 0)"

text \<open>\<^verbatim>\<open>void clock(int allP, int loaded)\<close>. The majority is computed once, from
  the registers as they are on entry; the three conditional updates follow in the order
  of the source, each reading the state left by the one before. A comparison
  \<^verbatim>\<open>(Ri&RiMID)!=0\<close> is the integer 0 or 1, compared with the word
  \<^verbatim>\<open>maj\<close>.\<close>

definition clock :: "int \<Rightarrow> int \<Rightarrow> state \<Rightarrow> state" where
  "clock allP loaded s =
     (let maj = majority (R1 s AND R1MID) (R2 s AND R2MID) (R3 s AND R3MID);
          s = (if allP \<noteq> 0 \<or> of_bool (R1 s AND R1MID \<noteq> 0) = maj
               then s\<lparr>R1 := clockone (R1 s) R1MASK R1TAPS\<rparr> else s);
          s = (if allP \<noteq> 0 \<or> of_bool (R2 s AND R2MID \<noteq> 0) = maj
               then s\<lparr>R2 := clockone (R2 s) R2MASK R2TAPS\<rparr> else s);
          s = (if allP \<noteq> 0 \<or> of_bool (R3 s AND R3MID \<noteq> 0) = maj
               then s\<lparr>R3 := clockone (R3 s) R3MASK R3TAPS\<rparr> else s)
      in s)"

text \<open>\<^verbatim>\<open>bit getbit()\<close> reads the registers and returns a bit; it is given the
  state and hands it back together with the bit, so that what it does to the registers
  is part of the model.\<close>

definition getbit :: "state \<Rightarrow> ulong \<times> state" where
  "getbit s =
     (let topbits = (drop_bit 18 (R1 s) XOR drop_bit 21 (R2 s) XOR drop_bit 22 (R3 s)) AND 0x01
      in (topbits, s))"

subsection \<open>keysetup\<close>

text \<open>The three loading loops of \<^verbatim>\<open>keysetup\<close> differ only in the register, its
  size and its shift origin:
  \<^verbatim>\<open>for (i = 0; i < RnSIZE; i++) { bitkey = (key >> (RnSHIFT-i-1)) & 1; Rn <<= 1; Rn ^= bitkey; }\<close>
  The counter \<^verbatim>\<open>i\<close> is a C \<^verbatim>\<open>int\<close> that runs from 0 to the size; it is a
  natural number here, and since every size is at most its shift origin the shift
  amount \<open>sh - i - 1\<close> never goes below 0 in the loops of \<^verbatim>\<open>keysetup\<close>.\<close>

function shift_in :: "nat \<Rightarrow> nat \<Rightarrow> ulong \<Rightarrow> nat \<Rightarrow> ulong \<Rightarrow> ulong" where
  "shift_in sz sh key i R =
     (if i < sz
      then (let bitkey = drop_bit (sh - i - 1) key AND 1;
                R = push_bit 1 R;
                R = R XOR bitkey
            in shift_in sz sh key (i + 1) R)
      else R)"
  by pat_completeness auto
termination
  by (relation "measure (\<lambda>(sz, sh, key, i, R). sz - i)") auto

declare shift_in.simps [simp del]

text \<open>\<^verbatim>\<open>void keysetup(word key, word frame)\<close>: the registers are zeroed, then
  loaded one after the other. Nothing in the body reads \<^verbatim>\<open>frame\<close>.\<close>

definition keysetup :: "ulong \<Rightarrow> ulong \<Rightarrow> state \<Rightarrow> state" where
  "keysetup key frame s =
     (let s = s\<lparr>R1 := 0, R2 := 0, R3 := 0\<rparr>;
          s = s\<lparr>R1 := shift_in R1SIZE R1SHIFT key 0 (R1 s)\<rparr>;
          s = s\<lparr>R2 := shift_in R2SIZE R2SHIFT key 0 (R2 s)\<rparr>;
          s = s\<lparr>R3 := shift_in R3SIZE R3SHIFT key 0 (R3 s)\<rparr>
      in s)"

subsection \<open>run\<close>

text \<open>The two buffers of \<^verbatim>\<open>run\<close> are separate arrays (as the two arrays of
  \<^verbatim>\<open>test\<close> are), each a list of bytes. C does not check an index: a write
  past the end of a buffer has no defined result, which is \<open>None\<close> here.

  The zeroing loop \<^verbatim>\<open>for (i=0; i<=113/8; i++) AtoBkeystream[i] = BtoAkeystream[i] = 0;\<close>\<close>

function zero_loop :: "nat \<Rightarrow> byte list \<Rightarrow> byte list \<Rightarrow> (byte list \<times> byte list) option" where
  "zero_loop i AtoB BtoA =
     (if i \<le> 113 div 8
      then (if i < length AtoB \<and> i < length BtoA
            then zero_loop (i + 1) (AtoB[i := 0]) (BtoA[i := 0])
            else None)
      else Some (AtoB, BtoA))"
  by pat_completeness auto
termination
  by (relation "measure (\<lambda>(i, AtoB, BtoA). 15 - i)") auto

declare zero_loop.simps [simp del]

text \<open>The generation loop
  \<^verbatim>\<open>for (i=0; i<6; i++) { ... AtoBkeystream[i/8] |= getbit() << (7-(i&7)); clock(0,0); }\<close>
  The source fixes the bound at 6; here the bound is the parameter \<open>n\<close>, which
  \<open>run\<close> below sets to 6, so that the same loop can also be stated for other
  lengths. The printing of the registers is left out, but not the call of
  \<^verbatim>\<open>getbit\<close> whose result is only printed. In the update the byte is widened
  to a word, combined with the shifted bit and narrowed to a byte again.\<close>

function gen_loop :: "nat \<Rightarrow> nat \<Rightarrow> byte list \<Rightarrow> state \<Rightarrow> (byte list \<times> state) option" where
  "gen_loop n i AtoB s =
     (if i < n
      then (if i div 8 < length AtoB
            then (let (printed, s) = getbit s;
                      (b, s) = getbit s;
                      AtoB = AtoB[i div 8 :=
                               ucast (ucast (AtoB ! (i div 8)) OR push_bit (7 - (i AND 7)) b)];
                      s = clock 0 0 s
                  in gen_loop n (i + 1) AtoB s)
            else None)
      else Some (AtoB, s))"
  by pat_completeness auto
termination
  by (relation "measure (\<lambda>(n, i, AtoB, s). n - i)") auto

declare gen_loop.simps [simp del]

text \<open>\<^verbatim>\<open>void run(byte AtoBkeystream[], byte BtoAkeystream[])\<close>.\<close>

definition run :: "byte list \<Rightarrow> byte list \<Rightarrow> state \<Rightarrow> (byte list \<times> byte list \<times> state) option" where
  "run AtoBkeystream BtoAkeystream s =
     (case zero_loop 0 AtoBkeystream BtoAkeystream of
        None \<Rightarrow> None
      | Some (AtoB, BtoA) \<Rightarrow>
          (case gen_loop 6 0 AtoB s of
             None \<Rightarrow> None
           | Some (AtoB, s) \<Rightarrow> Some (AtoB, BtoA, s)))"

subsection \<open>Notions used to state the properties\<close>

text \<open>At least two of three flags are set.\<close>

definition two_of_three :: "bool \<Rightarrow> bool \<Rightarrow> bool \<Rightarrow> bool" where
  "two_of_three a b c = (2 \<le> length (filter id [a, b, c]))"

text \<open>The conditions of the three \<^verbatim>\<open>if\<close> statements of \<^verbatim>\<open>clock\<close>, in
  the order R1, R2, R3, written as the source writes them: a lane is clocked when its
  condition holds.\<close>

definition clocked :: "int \<Rightarrow> state \<Rightarrow> bool \<times> bool \<times> bool" where
  "clocked allP s =
     (let maj = majority (R1 s AND R1MID) (R2 s AND R2MID) (R3 s AND R3MID)
      in (allP \<noteq> 0 \<or> of_bool (R1 s AND R1MID \<noteq> 0) = maj,
          allP \<noteq> 0 \<or> of_bool (R2 s AND R2MID \<noteq> 0) = maj,
          allP \<noteq> 0 \<or> of_bool (R3 s AND R3MID \<noteq> 0) = maj))"

text \<open>Shifting a list of bits into an empty register, first bit first:
  \<open>R = (R << 1) ^ bit\<close>, starting from 0.\<close>

definition shift_bits :: "bool list \<Rightarrow> ulong" where
  "shift_bits bs = foldl (\<lambda>R b. push_bit 1 R XOR of_bool b) 0 bs"

text \<open>The number of set bits of a word.\<close>

definition popcount :: "ulong \<Rightarrow> nat" where
  "popcount x = length (filter (bit x) [0..<64])"

text \<open>Every register fits its declared width.\<close>

definition width_ok :: "state \<Rightarrow> bool" where
  "width_ok s = (R1 s < 2 ^ 19 \<and> R2 s < 2 ^ 22 \<and> R3 s < 2 ^ 23)"

text \<open>The output bit of a state, as a truth value.\<close>

definition keybit :: "state \<Rightarrow> bool" where
  "keybit s = (fst (getbit s) = 1)"

text \<open>Bit \<open>i\<close> of a buffer packed most significant bit first: byte \<open>i / 8\<close>, bit position
  \<open>7 - i mod 8\<close>; and the first \<open>n\<close> bits of a buffer.\<close>

definition stored_bit :: "byte list \<Rightarrow> nat \<Rightarrow> bool" where
  "stored_bit buf i = bit (buf ! (i div 8)) (7 - i mod 8)"

definition bits_of :: "nat \<Rightarrow> byte list \<Rightarrow> bool list" where
  "bits_of n buf = map (stored_bit buf) [0..<n]"

section \<open>Properties\<close>

subsection \<open>Bits of words\<close>

lemma and_1_of_bool: "(w :: ulong) AND 1 = of_bool (bit w 0)"
  by (simp add: and_one_eq bit_0 mod_2_eq_odd)

lemma bit0_xor: "bit (a XOR b :: ulong) 0 = (bit a 0 \<noteq> bit b 0)"
  by (simp add: bit_xor_iff)

lemma bit0_drop: "bit (drop_bit n (w :: ulong)) 0 = bit w n"
  by (simp add: bit_drop_bit_eq)

lemma of_bool_xor: "(of_bool a XOR of_bool b :: ulong) = of_bool (a \<noteq> b)"
  by (cases a; cases b) simp_all

lemma of_bool_eq_word: "((of_bool a :: ulong) = of_bool b) = (a = b)"
  by (cases a; cases b) simp_all

lemma mid8: "((w :: ulong) AND 0x100 \<noteq> 0) = bit w 8"
  using and_exp_eq_0_iff_not_bit [of w 8] by simp

lemma mid10: "((w :: ulong) AND 0x400 \<noteq> 0) = bit w 10"
  using and_exp_eq_0_iff_not_bit [of w 10] by simp

subsection \<open>The clock step\<close>

lemma majority_two_of_three:
  "majority w1 w2 w3 = of_bool (two_of_three (w1 \<noteq> 0) (w2 \<noteq> 0) (w3 \<noteq> 0))"
  by (simp add: majority_def two_of_three_def)

lemma upd_R1:
  "R1 (if c then s\<lparr>R1 := v\<rparr> else s) = (if c then v else R1 s)"
  "R2 (if c then s\<lparr>R1 := v\<rparr> else s) = R2 s"
  "R3 (if c then s\<lparr>R1 := v\<rparr> else s) = R3 s"
  by simp_all

lemma upd_R2:
  "R1 (if c then s\<lparr>R2 := v\<rparr> else s) = R1 s"
  "R2 (if c then s\<lparr>R2 := v\<rparr> else s) = (if c then v else R2 s)"
  "R3 (if c then s\<lparr>R2 := v\<rparr> else s) = R3 s"
  by simp_all

lemma upd_R3:
  "R1 (if c then s\<lparr>R3 := v\<rparr> else s) = R1 s"
  "R2 (if c then s\<lparr>R3 := v\<rparr> else s) = R2 s"
  "R3 (if c then s\<lparr>R3 := v\<rparr> else s) = (if c then v else R3 s)"
  by simp_all

lemma clock_fields:
  "R1 (clock allP loaded s) =
     (if allP \<noteq> 0 \<or> bit (R1 s) 8 = two_of_three (bit (R1 s) 8) (bit (R2 s) 10) (bit (R3 s) 10)
      then clockone (R1 s) R1MASK R1TAPS else R1 s)"
  "R2 (clock allP loaded s) =
     (if allP \<noteq> 0 \<or> bit (R2 s) 10 = two_of_three (bit (R1 s) 8) (bit (R2 s) 10) (bit (R3 s) 10)
      then clockone (R2 s) R2MASK R2TAPS else R2 s)"
  "R3 (clock allP loaded s) =
     (if allP \<noteq> 0 \<or> bit (R3 s) 10 = two_of_three (bit (R1 s) 8) (bit (R2 s) 10) (bit (R3 s) 10)
      then clockone (R3 s) R3MASK R3TAPS else R3 s)"
  unfolding clock_def Let_def majority_two_of_three of_bool_eq_word
  by (simp_all only: upd_R1 upd_R2 upd_R3 mid8 mid10)

lemma clock_unfold:
  "clock allP loaded s =
     \<lparr>R1 = (if allP \<noteq> 0 \<or> bit (R1 s) 8 = two_of_three (bit (R1 s) 8) (bit (R2 s) 10) (bit (R3 s) 10)
            then clockone (R1 s) R1MASK R1TAPS else R1 s),
      R2 = (if allP \<noteq> 0 \<or> bit (R2 s) 10 = two_of_three (bit (R1 s) 8) (bit (R2 s) 10) (bit (R3 s) 10)
            then clockone (R2 s) R2MASK R2TAPS else R2 s),
      R3 = (if allP \<noteq> 0 \<or> bit (R3 s) 10 = two_of_three (bit (R1 s) 8) (bit (R2 s) 10) (bit (R3 s) 10)
            then clockone (R3 s) R3MASK R3TAPS else R3 s)\<rparr>"
  by (rule state.equality) (simp_all only: clock_fields state.simps unit_eq)

lemma clocked_bits:
  "clocked allP s =
     (allP \<noteq> 0 \<or> bit (R1 s) 8 = two_of_three (bit (R1 s) 8) (bit (R2 s) 10) (bit (R3 s) 10),
      allP \<noteq> 0 \<or> bit (R2 s) 10 = two_of_three (bit (R1 s) 8) (bit (R2 s) 10) (bit (R3 s) 10),
      allP \<noteq> 0 \<or> bit (R3 s) 10 = two_of_three (bit (R1 s) 8) (bit (R2 s) 10) (bit (R3 s) 10))"
  unfolding clocked_def Let_def majority_two_of_three of_bool_eq_word
  by (simp only: mid8 mid10)

lemma parity_small: "parity 0 = 0" "parity 1 = 1"
  by (simp_all add: parity_def)

text \<open>
  C1. For every state and every flag \<open>allP\<close>, \<open>clock\<close> advances lane
  \<open>Ri\<close> exactly when \<open>allP\<close> is set or the control bit of \<open>Ri\<close> (bit 8 of
  \<open>R1\<close>, bit 10 of \<open>R2\<close>, bit 10 of \<open>R3\<close>) equals the majority of the three
  control bits of the state before the step; an advanced lane becomes
  \<open>((value << 1) & mask) | parity (value & taps)\<close> with the masks
  0x07FFFF, 0x3FFFFF, 0x7FFFFF and the taps 0x072000, 0x300000, 0x700080, and a lane
  that is not selected keeps its value.
\<close>

theorem clock_step_by_majority:
  "clock allP loaded s =
     (let c1 = bit (R1 s) 8; c2 = bit (R2 s) 10; c3 = bit (R3 s) 10;
          maj = two_of_three c1 c2 c3
      in \<lparr>R1 = (if allP \<noteq> 0 \<or> c1 = maj
                 then (push_bit 1 (R1 s) AND 0x07FFFF) OR parity (R1 s AND 0x072000)
                 else R1 s),
          R2 = (if allP \<noteq> 0 \<or> c2 = maj
                 then (push_bit 1 (R2 s) AND 0x3FFFFF) OR parity (R2 s AND 0x300000)
                 else R2 s),
          R3 = (if allP \<noteq> 0 \<or> c3 = maj
                 then (push_bit 1 (R3 s) AND 0x7FFFFF) OR parity (R3 s AND 0x700080)
                 else R3 s)\<rparr>)"
  unfolding Let_def
  by (rule trans [OF clock_unfold]) (simp only: clockone_def Let_def)

theorem clock_step_by_majority_witness:
  "clock 0 0 \<lparr>R1 = 0x100, R2 = 1, R3 = 0x400\<rparr> = \<lparr>R1 = 0x200, R2 = 1, R3 = 0x800\<rparr>"
  using clock_step_by_majority [of 0 0 "\<lparr>R1 = 0x100, R2 = 1, R3 = 0x400\<rparr>"]
  by (simp add: two_of_three_def parity_small)

text \<open>
  C7. Majority clocking: in every state, a clock step advances at least two of the three
  lanes, never none and never exactly one; with \<open>allP\<close> set all three advance. The
  lanes that advance are those whose condition in \<open>clock\<close> holds, and \<open>clock\<close>
  replaces exactly their values by the result of \<open>clockone\<close>.
\<close>

theorem clock_at_least_two_lanes:
  "(case clocked allP s of
      (c1, c2, c3) \<Rightarrow>
        2 \<le> length (filter id [c1, c2, c3]) \<and>
        (allP \<noteq> 0 \<longrightarrow> c1 \<and> c2 \<and> c3) \<and>
        clock allP loaded s =
          \<lparr>R1 = (if c1 then clockone (R1 s) R1MASK R1TAPS else R1 s),
           R2 = (if c2 then clockone (R2 s) R2MASK R2TAPS else R2 s),
           R3 = (if c3 then clockone (R3 s) R3MASK R3TAPS else R3 s)\<rparr>)"
proof -
  have two: "2 \<le> length (filter id
      [a = two_of_three a b c, b = two_of_three a b c, c = two_of_three a b c])"
    for a b c
    by (cases a; cases b; cases c) (simp_all add: two_of_three_def)
  have cnt: "2 \<le> length (filter id [p \<or> x, p \<or> y, p \<or> z])"
    if "2 \<le> length (filter id [x, y, z])" for p x y z
    using that by (cases p; cases x; cases y; cases z) simp_all
  show ?thesis
    unfolding clocked_bits prod.case
    by (intro conjI cnt two clock_unfold) simp
qed

theorem clock_at_least_two_lanes_witness:
  "(1 :: int) \<noteq> 0 \<and>
   clocked 1 \<lparr>R1 = 0x100, R2 = 1, R3 = 0x400\<rparr> = (True, True, True) \<and>
   clock 1 0 \<lparr>R1 = 0x100, R2 = 1, R3 = 0x400\<rparr> = \<lparr>R1 = 0x200, R2 = 2, R3 = 0x800\<rparr>"
  using clock_at_least_two_lanes [where allP = 1 and loaded = 0
      and s = "\<lparr>R1 = 0x100, R2 = 1, R3 = 0x400\<rparr>"]
  by (cases "clocked 1 \<lparr>R1 = 0x100, R2 = 1, R3 = 0x400\<rparr>")
    (simp add: clockone_def parity_small)

subsection \<open>The output bit\<close>

text \<open>
  C3. For every state, \<open>getbit\<close> returns bit 18 of \<open>R1\<close> XOR bit 21 of \<open>R2\<close>
  XOR bit 22 of \<open>R3\<close>, and the state it leaves is the state it was given: the
  registers are read, not written, and not advanced.
\<close>

theorem getbit_top_bits_readonly:
  "getbit s =
     (of_bool (bit (R1 s) 18) XOR of_bool (bit (R2 s) 21) XOR of_bool (bit (R3 s) 22), s)"
  unfolding getbit_def Let_def
  by (simp only: and_1_of_bool bit0_xor bit0_drop of_bool_xor)

subsection \<open>Key setup\<close>

lemma bit_push1_Suc: "bit (push_bit 1 (w :: ulong)) (Suc m) = (Suc m < 64 \<and> bit w m)"
  using bit_push_bit_iff [of 1 w "Suc m"] by (auto simp add: possible_bit_word)

lemma bit_and1_Suc: "\<not> bit ((w :: ulong) AND 1) (Suc m)"
  by (simp add: and_1_of_bool bit_of_bool_iff)

lemma shift_in_step:
  assumes "i < sh"
  shows "push_bit 1 (take_bit i (drop_bit (sh - i) key)) XOR (drop_bit (sh - i - 1) key AND 1)
         = take_bit (Suc i) (drop_bit (sh - Suc i) (key :: ulong))"
proof (rule bit_eqI)
  fix n
  show "bit (push_bit 1 (take_bit i (drop_bit (sh - i) key)) XOR (drop_bit (sh - i - 1) key AND 1)) n
        = bit (take_bit (Suc i) (drop_bit (sh - Suc i) key)) n"
  proof (cases n)
    case 0
    have a: "\<not> bit (push_bit 1 (take_bit i (drop_bit (sh - i) key))) 0"
      by (simp only: bit_push_bit_iff) simp
    have b: "bit (drop_bit (sh - i - 1) key AND 1) 0 = bit key (sh - i - 1)"
      by (simp only: and_1_of_bool bit0_drop) simp
    have c: "bit (take_bit (Suc i) (drop_bit (sh - Suc i) key)) 0 = bit key (sh - i - 1)"
      by (simp only: bit_take_bit_iff bit0_drop) simp
    show ?thesis
      by (simp only: 0 bit0_xor a b c simp_thms)
  next
    case (Suc m)
    have e: "sh - i + m = sh - Suc i + Suc m" using assms by simp
    have "bit (take_bit i (drop_bit (sh - i) key)) m = bit (take_bit (Suc i) (drop_bit (sh - Suc i) key)) (Suc m)"
      by (simp add: bit_take_bit_iff bit_drop_bit_eq e)
    moreover have "bit (take_bit (Suc i) (drop_bit (sh - Suc i) key)) (Suc m) \<Longrightarrow> Suc m < 64"
      using bit_imp_le_length [of "take_bit (Suc i) (drop_bit (sh - Suc i) key)" "Suc m"] by simp
    ultimately show ?thesis
      unfolding Suc bit_xor_iff bit_push1_Suc
      using bit_and1_Suc [of "drop_bit (sh - i - 1) key" m] by blast
  qed
qed

lemma shift_in_closed:
  "i \<le> sz \<Longrightarrow> sz \<le> sh \<Longrightarrow> R = take_bit i (drop_bit (sh - i) key)
   \<Longrightarrow> shift_in sz sh key i R = take_bit sz (drop_bit (sh - sz) key)"
proof (induction sz sh key i R rule: shift_in.induct)
  case (1 sz sh key i R)
  show ?case
  proof (cases "i < sz")
    case True
    then have "i < sh" using "1.prems" by simp
    from shift_in_step [OF this, of key] True "1.prems" "1.IH" [OF True refl refl refl]
    show ?thesis
      by (subst shift_in.simps) (simp add: Let_def)
  next
    case False
    with "1.prems" show ?thesis
      by (subst shift_in.simps) simp
  qed
qed


lemma shift_in_foldl:
  "shift_in sz sh key i R =
     foldl (\<lambda>R b. push_bit 1 R XOR of_bool b) R (map (\<lambda>k. bit key (sh - k - 1)) [i..<sz])"
proof (induction sz sh key i R rule: shift_in.induct)
  case (1 sz sh key i R)
  show ?case
  proof (cases "i < sz")
    case True
    have "drop_bit (sh - i - 1) key AND 1 = of_bool (bit key (sh - i - 1))"
      by (simp only: and_1_of_bool bit0_drop)
    with True "1.IH" [OF True refl refl refl] show ?thesis
      by (subst shift_in.simps) (simp add: Let_def upt_conv_Cons)
  next
    case False
    then show ?thesis
      by (subst shift_in.simps) simp
  qed
qed

lemma keysetup_fields:
  "R1 (keysetup key frame s) = shift_in 19 64 key 0 0"
  "R2 (keysetup key frame s) = shift_in 22 45 key 0 0"
  "R3 (keysetup key frame s) = shift_in 23 23 key 0 0"
  by (simp_all add: keysetup_def Let_def)

lemma keysetup_closed:
  "R1 (keysetup key frame s) = take_bit 19 (drop_bit 45 key)"
  "R2 (keysetup key frame s) = take_bit 22 (drop_bit 23 key)"
  "R3 (keysetup key frame s) = take_bit 23 key"
  unfolding keysetup_fields
  by (simp_all add: shift_in_closed [where i = 0])

lemma rev_upt_eq: "map (\<lambda>k. f (sh - k - 1)) [0..<n] = map f (rev [sh - n..<sh])" if "n \<le> sh"
  using that
proof (induction n)
  case 0
  then show ?case by simp
next
  case (Suc n)
  then have "sh - n = Suc (sh - Suc n)" by simp
  with Suc show ?case
    by (simp add: upt_conv_Cons [of "sh - Suc n" sh])
qed

lemma keysetup_msb_first:
  "R1 (keysetup key frame s) = shift_bits (map (bit key) (rev [45..<64]))"
  "R2 (keysetup key frame s) = shift_bits (map (bit key) (rev [23..<45]))"
  "R3 (keysetup key frame s) = shift_bits (map (bit key) (rev [0..<23]))"
  unfolding keysetup_fields shift_in_foldl shift_bits_def
  using rev_upt_eq [of 19 64 "bit key"] rev_upt_eq [of 22 45 "bit key"] rev_upt_eq [of 23 23 "bit key"]
  by simp_all

lemma key_split:
  "push_bit 45 (take_bit 19 (drop_bit 45 key)) OR push_bit 23 (take_bit 22 (drop_bit 23 key))
     OR take_bit 23 key = (key :: ulong)"
proof (rule bit_eqI)
  fix n :: nat
  consider "n < 23" | "23 \<le> n" "n < 45" | "45 \<le> n"
    by linarith
  then show "bit (push_bit 45 (take_bit 19 (drop_bit 45 key))
      OR push_bit 23 (take_bit 22 (drop_bit 23 key)) OR take_bit 23 key) n = bit key n"
  proof cases
    case 1
    then show ?thesis by (simp add: bit_simps)
  next
    case 2
    then show ?thesis by (auto simp add: bit_simps)
  next
    case 3
    then show ?thesis by (auto simp add: bit_simps dest: bit_imp_le_length)
  qed
qed



text \<open>
  C2. For every 64-bit key and every frame value, \<open>keysetup\<close> leaves in \<open>R1\<close>
  the key bits with indices 63 down to 45 (offsets 64 down to 46), in \<open>R2\<close> the bits
  44 down to 23 and in \<open>R3\<close> the bits 22 down to 0, each shifted in most significant
  bit first by \<open>R = (R << 1) ^ bit\<close> from an empty register. The three ranges do not
  overlap and cover the key: the registers are the three consecutive bit fields of the
  key, and the key is recovered by putting them side by side.
\<close>

theorem keysetup_loads_key_msb_first:
  "(let s' = keysetup key frame s
    in R1 s' = shift_bits (map (bit key) (rev [45..<64])) \<and>
       R2 s' = shift_bits (map (bit key) (rev [23..<45])) \<and>
       R3 s' = shift_bits (map (bit key) (rev [0..<23])) \<and>
       R1 s' = take_bit 19 (drop_bit 45 key) \<and>
       R2 s' = take_bit 22 (drop_bit 23 key) \<and>
       R3 s' = take_bit 23 key \<and>
       push_bit 45 (R1 s') OR push_bit 23 (R2 s') OR R3 s' = key)"
  unfolding Let_def
  using keysetup_msb_first [of key frame s] keysetup_closed [of key frame s] key_split [of key]
  by (simp only: simp_thms)

text \<open>
  C4. The frame number is not mixed into the registers: for every key and every two
  frame values, \<open>keysetup\<close> produces the same registers (whatever the registers held
  before), so what \<open>run\<close> generates afterwards depends on the key only.
\<close>

theorem keysetup_ignores_frame:
  "keysetup key f1 s1 = keysetup key f2 s2 \<and>
   run AtoB BtoA (keysetup key f1 s1) = run AtoB BtoA (keysetup key f2 s2)"
proof -
  have "keysetup key f1 s1 = keysetup key f2 s2"
    by (rule state.equality) (simp_all add: keysetup_fields)
  then show ?thesis
    by (simp only: simp_thms)
qed

subsection \<open>Parity\<close>

lemma length_filter_sum_list:
  "length (filter P xs) = sum_list (map (\<lambda>k. of_bool (P k)) xs)"
  by (induction xs) simp_all

lemma fold_stage:
  assumes "\<And>j. bit (y :: ulong) j = odd (g j :: nat)"
  shows "bit (y XOR drop_bit m y) j = odd (g j + g (m + j))"
  by (simp add: bit_xor_iff bit_drop_bit_eq assms)

lemma parity_low32:
  "parity x = of_bool (odd (sum_list (map (\<lambda>k. of_bool (bit x k)) [0..<32]) :: nat))"
proof -
  define c :: "nat \<Rightarrow> nat" where "c j = of_bool (bit x j)" for j
  have s0: "bit x j = odd (c j)" for j
    by (simp add: c_def)
  note s5 = fold_stage [OF fold_stage [OF fold_stage [OF fold_stage [OF fold_stage [OF s0]]]]]
  have cnt: "c 0 + c 1 + (c 2 + c 3) + (c 4 + c 5 + (c 6 + c 7))
      + (c 8 + c 9 + (c 10 + c 11) + (c 12 + c 13 + (c 14 + c 15)))
      + (c 16 + c 17 + (c 18 + c 19) + (c 20 + c 21 + (c 22 + c 23))
      + (c 24 + c 25 + (c 26 + c 27) + (c 28 + c 29 + (c 30 + c 31))))
      = sum_list (map c [0..<32])"
    by (simp add: upt_rec eval_nat_numeral)
  have "parity x = of_bool (bit
      (let x = x XOR drop_bit 16 x; x = x XOR drop_bit 8 x; x = x XOR drop_bit 4 x;
           x = x XOR drop_bit 2 x; x = x XOR drop_bit 1 x in x) 0)"
    by (simp only: parity_def Let_def and_1_of_bool)
  also have "\<dots> = of_bool (odd (c 0 + c 1 + (c 2 + c 3) + (c 4 + c 5 + (c 6 + c 7))
      + (c 8 + c 9 + (c 10 + c 11) + (c 12 + c 13 + (c 14 + c 15)))
      + (c 16 + c 17 + (c 18 + c 19) + (c 20 + c 21 + (c 22 + c 23))
      + (c 24 + c 25 + (c 26 + c 27) + (c 28 + c 29 + (c 30 + c 31))))))"
  proof -
    have "c 0 + c (16 + 0) + (c (8 + 0) + c (16 + (8 + 0)))
        + (c (4 + 0) + c (16 + (4 + 0)) + (c (8 + (4 + 0)) + c (16 + (8 + (4 + 0)))))
        + (c (2 + 0) + c (16 + (2 + 0)) + (c (8 + (2 + 0)) + c (16 + (8 + (2 + 0))))
        + (c (4 + (2 + 0)) + c (16 + (4 + (2 + 0)))
        + (c (8 + (4 + (2 + 0))) + c (16 + (8 + (4 + (2 + 0)))))))
        + (c (1 + 0) + c (16 + (1 + 0)) + (c (8 + (1 + 0)) + c (16 + (8 + (1 + 0))))
        + (c (4 + (1 + 0)) + c (16 + (4 + (1 + 0)))
        + (c (8 + (4 + (1 + 0))) + c (16 + (8 + (4 + (1 + 0))))))
        + (c (2 + (1 + 0)) + c (16 + (2 + (1 + 0)))
        + (c (8 + (2 + (1 + 0))) + c (16 + (8 + (2 + (1 + 0)))))
        + (c (4 + (2 + (1 + 0))) + c (16 + (4 + (2 + (1 + 0))))
        + (c (8 + (4 + (2 + (1 + 0)))) + c (16 + (8 + (4 + (2 + (1 + 0)))))))))
      = c 0 + c 1 + (c 2 + c 3) + (c 4 + c 5 + (c 6 + c 7))
      + (c 8 + c 9 + (c 10 + c 11) + (c 12 + c 13 + (c 14 + c 15)))
      + (c 16 + c 17 + (c 18 + c 19) + (c 20 + c 21 + (c 22 + c 23))
      + (c 24 + c 25 + (c 26 + c 27) + (c 28 + c 29 + (c 30 + c 31))))"
      by simp
    then show ?thesis
      unfolding Let_def s5 [of 16 8 4 2 1 0] by (rule arg_cong)
  qed
  finally have "parity x = of_bool (odd (sum_list (map c [0..<32])))"
    by (simp only: cnt)
  moreover have "c = (\<lambda>k. of_bool (bit x k))"
    by (rule ext) (simp only: c_def)
  ultimately show ?thesis
    by (simp only:)
qed


lemma low32_mask: "(x :: ulong) AND 0xFFFFFFFF = take_bit 32 x"
  by (simp add: take_bit_eq_mask mask_eq_exp_minus_1)

lemma popcount_take_bit_32:
  "popcount (take_bit 32 x) = sum_list (map (\<lambda>k. of_bool (bit x k)) [0..<32])"
proof -
  have split: "[0..<64] = [0..<32] @ [32..<64]"
    using upt_add_eq_append [of 0 32 32] by simp
  have lo: "map (\<lambda>k. of_bool (bit (take_bit 32 x) k) :: nat) [0..<32]
      = map (\<lambda>k. of_bool (bit x k)) [0..<32]"
    by (rule map_cong) (simp_all add: bit_take_bit_iff)
  have hi: "sum_list (map (\<lambda>k. of_bool (bit (take_bit 32 x) k) :: nat) [32..<64]) = 0"
    by (simp add: bit_take_bit_iff)
  show ?thesis
    unfolding popcount_def length_filter_sum_list split map_append sum_list_append lo hi
    by simp
qed

lemma unat_of_bool_word: "unat (of_bool b :: ulong) = of_bool b"
  by simp

lemma lt_pow_iff_take_bit: "n < 64 \<Longrightarrow> ((w :: ulong) < 2 ^ n) = (take_bit n w = w)"
  using mask_eq_iff_w2p [of n w] by (simp add: word_size take_bit_eq_mask)

lemma parity_popcount_low32: "unat (parity x) = popcount (x AND 0xFFFFFFFF) mod 2"
  by (simp only: low32_mask popcount_take_bit_32 parity_low32 unat_of_bool_word
      of_bool_odd_eq_mod_2)

lemma parity_popcount_32bit: "x < 2 ^ 32 \<Longrightarrow> unat (parity x) = popcount x mod 2"
  using parity_popcount_low32 [of x] lt_pow_iff_take_bit [of 32 x]
  by (simp add: low32_mask)


text \<open>
  C5, as stated: \<open>parity x\<close> is the number of set bits of \<open>x\<close> modulo 2, for every
  input of the machine word type. This fails for a word with a set bit above bit 31:
  the five folding steps of \<open>parity\<close> only reach the low 32 bits.
\<close>

theorem parity_misses_bit_32:
  "unat (parity (2 ^ 32)) \<noteq> popcount (2 ^ 32) mod 2"
  by code_simp

text \<open>
  C5, amended: \<open>parity x\<close> is the number of set bits among the low 32 bits of \<open>x\<close>
  modulo 2, for every word \<open>x\<close>; hence it is the number of set bits of \<open>x\<close> modulo 2
  for every 32-bit value \<open>x\<close>, 0 and all-ones included.
\<close>

theorem parity_popcount_of_low_32_bits:
  "unat (parity x) = popcount (x AND 0xFFFFFFFF) mod 2 \<and>
   (x < 2 ^ 32 \<longrightarrow> unat (parity x) = popcount x mod 2)"
  using parity_popcount_low32 [of x] parity_popcount_32bit [of x]
  by blast

theorem parity_popcount_of_low_32_bits_witness:
  "(0xFFFFFFFF :: ulong) < 2 ^ 32 \<and> unat (parity 0xFFFFFFFF) = popcount 0xFFFFFFFF mod 2"
proof -
  have h: "(0xFFFFFFFF :: ulong) < 2 ^ 32"
    by simp
  with parity_popcount_of_low_32_bits [of "0xFFFFFFFF"] show ?thesis
    by blast
qed

subsection \<open>Register widths\<close>

lemma parity_of_bool: "\<exists>b. parity x = of_bool b"
  unfolding parity_def Let_def and_1_of_bool by blast

lemma clockone_take_bit:
  assumes "0 < n" "n < 64" "msk = mask n"
  shows "clockone reg msk taps < 2 ^ n"
proof -
  obtain b where b: "parity (reg AND taps) = of_bool b"
    using parity_of_bool by blast
  have "take_bit n (take_bit n (push_bit 1 reg) OR of_bool b) = take_bit n (push_bit 1 reg) OR (of_bool b :: ulong)"
    using assms(1) by (intro bit_eqI) (auto simp add: bit_take_bit_iff bit_or_iff bit_of_bool_iff)
  then show ?thesis
    unfolding clockone_def Let_def b assms(3) lt_pow_iff_take_bit [OF assms(2)]
    by (simp only: take_bit_eq_mask)
qed

lemma masks: "R1MASK = mask 19" "R2MASK = mask 22" "R3MASK = mask 23"
  by (simp_all add: mask_eq_exp_minus_1)

lemma clockone_width:
  "clockone reg R1MASK taps < 2 ^ 19"
  "clockone reg R2MASK taps < 2 ^ 22"
  "clockone reg R3MASK taps < 2 ^ 23"
  using clockone_take_bit [OF _ _ masks(1), of reg taps]
    clockone_take_bit [OF _ _ masks(2), of reg taps]
    clockone_take_bit [OF _ _ masks(3), of reg taps]
  by simp_all

lemma width_ok_clock: "width_ok s \<Longrightarrow> width_ok (clock allP loaded s)"
  unfolding width_ok_def clock_fields
  using clockone_width by (simp only: split: if_split) blast

lemma shift_in_width: "i \<le> n \<Longrightarrow> n \<le> sh \<Longrightarrow> n < 64 \<Longrightarrow> shift_in i sh key 0 0 < 2 ^ n"
proof -
  assume a: "i \<le> n" "n \<le> sh" "n < 64"
  have "take_bit n (take_bit i (drop_bit (sh - i) key)) = take_bit i (drop_bit (sh - i) key)"
    using a(1) by (simp add: min_def)
  with a show ?thesis
    by (simp add: shift_in_closed [where i = 0] lt_pow_iff_take_bit)
qed

lemma width_ok_keysetup: "width_ok (keysetup key frame s)"
  unfolding width_ok_def keysetup_fields
  using shift_in_width [of 19 19 64 key] shift_in_width [of 22 22 45 key]
    shift_in_width [of 23 23 23 key]
  by simp

lemma width_ok_steps:
  "width_ok s \<Longrightarrow> width_ok (foldl (\<lambda>s (allP, loaded). clock allP loaded s) s steps)"
  by (induction steps arbitrary: s) (auto simp add: width_ok_clock)


text \<open>
  C6. Width invariant: after \<open>keysetup\<close> and after every clock step that follows it,
  forced or not, \<open>R1 < 2^19\<close>, \<open>R2 < 2^22\<close> and \<open>R3 < 2^23\<close>. The loading loops
  of \<open>keysetup\<close> shift bits in without a mask; the bound also holds for the register
  after any number \<open>i\<close> of their iterations.
\<close>

theorem width_invariant:
  "width_ok (keysetup key frame s0) \<and>
   width_ok (foldl (\<lambda>s (allP, loaded). clock allP loaded s) (keysetup key frame s0) steps) \<and>
   (\<forall>i\<le>19. shift_in i 64 key 0 0 < 2 ^ 19) \<and>
   (\<forall>i\<le>22. shift_in i 45 key 0 0 < 2 ^ 22) \<and>
   (\<forall>i\<le>23. shift_in i 23 key 0 0 < 2 ^ 23)"
  using width_ok_keysetup [of key frame s0]
    width_ok_steps [OF width_ok_keysetup [of key frame s0], of steps]
    shift_in_width [of _ 19 64 key] shift_in_width [of _ 22 45 key]
    shift_in_width [of _ 23 23 key]
  by simp

theorem width_invariant_witness:
  "width_ok (foldl (\<lambda>s (allP, loaded). clock allP loaded s)
     (keysetup 0x911A2B3C4D5E6F0F 0x134 \<lparr>R1 = 0, R2 = 0, R3 = 0\<rparr>) [(0, 0), (1, 0)]) \<and>
   (5 :: nat) \<le> 19 \<and> shift_in 5 64 0x911A2B3C4D5E6F0F 0 0 < 2 ^ 19"
  using width_invariant [of "0x911A2B3C4D5E6F0F" "0x134" "\<lparr>R1 = 0, R2 = 0, R3 = 0\<rparr>"
      "[(0, 0), (1, 0)]"]
  by simp

subsection \<open>Generating keystream\<close>

lemma getbit_keybit: "getbit s = (of_bool (keybit s), s)"
proof -
  have "getbit s = (of_bool (bit (R1 s) 18 \<noteq> (bit (R2 s) 21 \<noteq> bit (R3 s) 22)), s)"
    unfolding getbit_def Let_def
    by (simp only: and_1_of_bool bit0_xor bit0_drop)
  then show ?thesis
    by (simp add: keybit_def)
qed

lemma and_7_mod_8: "(i :: nat) AND 7 = i mod 8"
  using take_bit_eq_mask [of 3 i] by (simp add: take_bit_eq_mod mask_eq_exp_minus_1)

lemma byte_or_bit:
  "(ucast (ucast (a :: byte) OR push_bit k (of_bool p :: ulong)) :: byte) = a OR push_bit k (of_bool p)"
  by (rule bit_eqI) (auto simp add: bit_simps)

lemma bit_byte_or_bit:
  "m < 8 \<Longrightarrow> bit ((a :: byte) OR push_bit k (of_bool p)) m = (bit a m \<or> (m = k \<and> p))"
  by (auto simp add: bit_simps)

lemma gen_loop_step:
  assumes "i < n" "i div 8 < length A"
  shows "gen_loop n i A s =
    gen_loop n (Suc i) (A[i div 8 := A ! (i div 8) OR push_bit (7 - i mod 8) (of_bool (keybit s))])
      (clock 0 0 s)"
  using assms
  by (subst gen_loop.simps) (simp add: getbit_keybit and_7_mod_8 byte_or_bit)

lemma gen_loop_stop: "\<not> i < n \<Longrightarrow> gen_loop n i A s = Some (A, s)"
  by (subst gen_loop.simps) simp

lemma gen_loop_overrun: "i < n \<Longrightarrow> \<not> i div 8 < length A \<Longrightarrow> gen_loop n i A s = None"
  by (subst gen_loop.simps) simp

lemma stored_bit_update:
  assumes "i div 8 < length A"
  shows "stored_bit (A[i div 8 := A ! (i div 8) OR push_bit (7 - i mod 8) (of_bool p)]) j
    = (stored_bit A j \<or> (j = i \<and> p))"
proof (cases "j div 8 = i div 8")
  case True
  have "(7 - j mod 8 = 7 - i mod 8) = (j = i)"
  proof -
    have "j mod 8 < 8" "i mod 8 < 8" by simp_all
    then have "(7 - j mod 8 = 7 - i mod 8) = (j mod 8 = i mod 8)" by linarith
    also have "\<dots> = (j = i)"
      using True by (metis div_mult_mod_eq)
    finally show ?thesis .
  qed
  with True assms show ?thesis
    by (simp add: stored_bit_def bit_byte_or_bit)
next
  case False
  then have "j \<noteq> i" by auto
  with False show ?thesis
    by (simp add: stored_bit_def)
qed


lemma gen_loop_spec:
  "i \<le> n \<Longrightarrow> n \<le> 8 * length A \<Longrightarrow>
   \<exists>A'. gen_loop n i A s = Some (A', (clock 0 0 ^^ (n - i)) s) \<and> length A' = length A \<and>
     (\<forall>j. stored_bit A' j =
        (stored_bit A j \<or> (i \<le> j \<and> j < n \<and> keybit ((clock 0 0 ^^ (j - i)) s))))"
proof (induction k \<equiv> "n - i" arbitrary: i A s)
  case 0
  then have "\<not> i < n" by simp
  then show ?case
    by (auto simp add: gen_loop_stop)
next
  case (Suc k)
  then have lt: "i < n" and k: "k = n - Suc i" by simp_all
  from lt Suc.prems have inb: "i div 8 < length A" by simp
  let ?A1 = "A[i div 8 := A ! (i div 8) OR push_bit (7 - i mod 8) (of_bool (keybit s))]"
  let ?s1 = "clock 0 0 s"
  from lt Suc.prems have "Suc i \<le> n" "n \<le> 8 * length ?A1" by simp_all
  from Suc.hyps(1) [OF k this] obtain A' where
    run: "gen_loop n (Suc i) ?A1 ?s1 = Some (A', (clock 0 0 ^^ (n - Suc i)) ?s1)" and
    len: "length A' = length ?A1" and
    bits: "\<And>j. stored_bit A' j =
      (stored_bit ?A1 j \<or> (Suc i \<le> j \<and> j < n \<and> keybit ((clock 0 0 ^^ (j - Suc i)) ?s1)))"
    by blast
  have shift: "(clock 0 0 ^^ m) ?s1 = (clock 0 0 ^^ Suc m) s" for m
    by (simp only: funpow_Suc_right o_apply)
  have fin: "(clock 0 0 ^^ (n - Suc i)) ?s1 = (clock 0 0 ^^ (n - i)) s"
    using lt by (simp only: shift Suc_diff_Suc)
  have "stored_bit A' j =
      (stored_bit A j \<or> (i \<le> j \<and> j < n \<and> keybit ((clock 0 0 ^^ (j - i)) s)))" for j
  proof (cases "j = i")
    case True
    with lt show ?thesis
      by (simp add: bits stored_bit_update [OF inb])
  next
    case False
    have "Suc i \<le> j \<Longrightarrow> (clock 0 0 ^^ (j - Suc i)) ?s1 = (clock 0 0 ^^ (j - i)) s"
      by (simp only: shift Suc_diff_Suc Suc_le_lessD)
    with False show ?thesis
      unfolding bits stored_bit_update [OF inb] by (cases "Suc i \<le> j") auto
  qed
  with run len fin show ?case
    by (simp add: gen_loop_step [OF lt inb])
qed

lemma stored_bit_zero: "j < 8 * m \<Longrightarrow> \<not> stored_bit (replicate m 0) j"
  by (simp add: stored_bit_def)

lemma gen_loop_zeroed:
  assumes "n \<le> 8 * m"
  shows "\<exists>A'. gen_loop n 0 (replicate m 0) s = Some (A', (clock 0 0 ^^ n) s) \<and> length A' = m \<and>
     (\<forall>j<8 * m. stored_bit A' j = (j < n \<and> keybit ((clock 0 0 ^^ j) s)))"
  using gen_loop_spec [of 0 n "replicate m 0" s] assms
  by (auto simp add: stored_bit_zero)


lemma zero_loop_spec:
  "i \<le> 15 \<Longrightarrow> 15 \<le> length A \<Longrightarrow> 15 \<le> length B \<Longrightarrow>
   \<exists>A' B'. zero_loop i A B = Some (A', B') \<and> length A' = length A \<and> length B' = length B \<and>
     (\<forall>k<length A. A' ! k = (if i \<le> k \<and> k < 15 then 0 else A ! k)) \<and>
     (\<forall>k<length B. B' ! k = (if i \<le> k \<and> k < 15 then 0 else B ! k))"
proof (induction k \<equiv> "15 - i" arbitrary: i A B)
  case 0
  then have "i = 15" by simp
  then show ?case
    by (subst zero_loop.simps) auto
next
  case (Suc k)
  then have lt: "i < 15" and k: "k = 15 - Suc i" by simp_all
  from lt Suc.prems have "Suc i \<le> 15" "15 \<le> length (A[i := 0])" "15 \<le> length (B[i := 0])"
    by simp_all
  from Suc.hyps(1) [OF k this] obtain A' B' where
    "zero_loop (Suc i) (A[i := 0]) (B[i := 0]) = Some (A', B')"
    "length A' = length A" "length B' = length B"
    "\<And>k. k < length A \<Longrightarrow> A' ! k = (if Suc i \<le> k \<and> k < 15 then 0 else A[i := 0] ! k)"
    "\<And>k. k < length B \<Longrightarrow> B' ! k = (if Suc i \<le> k \<and> k < 15 then 0 else B[i := 0] ! k)"
    by auto
  moreover have "zero_loop i A B = zero_loop (Suc i) (A[i := 0]) (B[i := 0])"
    using lt Suc.prems by (subst zero_loop.simps) simp
  ultimately show ?case
    using lt by (auto simp add: nth_list_update)
qed

lemma zero_loop_15:
  assumes "length A = 15" "length B = 15"
  shows "zero_loop 0 A B = Some (replicate 15 0, replicate 15 0)"
proof -
  from zero_loop_spec [of 0 A B] assms obtain A' B' where
    z: "zero_loop 0 A B = Some (A', B')" and
    l: "length A' = 15" "length B' = 15" and
    n: "\<And>k. k < 15 \<Longrightarrow> A' ! k = 0" "\<And>k. k < 15 \<Longrightarrow> B' ! k = 0"
    by auto
  have "A' = replicate 15 0" "B' = replicate 15 0"
    using l n by (simp_all add: list_eq_iff_nth_eq)
  with z show ?thesis by simp
qed

lemma byte_eqI: "(\<And>m. m < 8 \<Longrightarrow> bit a m = bit b m) \<Longrightarrow> a = b" for a b :: byte
  by (rule bit_eqI) (simp add: possible_bit_word)

lemma stored_bit_at:
  assumes "m < 8"
  shows "bit (buf ! k) m = stored_bit buf (8 * k + (7 - m))"
proof -
  have "(8 * k + (7 - m)) div 8 = k"
    by simp
  moreover have "(8 * k + (7 - m)) mod 8 = 7 - m"
    by (simp only: mod_mult_self4) simp
  moreover have "7 - (7 - m) = m"
    using assms by simp
  ultimately show ?thesis
    by (simp only: stored_bit_def)
qed

lemma run_15:
  assumes "length A = 15" "length B = 15"
  shows "\<exists>b0. run A B s = Some (b0 # replicate 14 0, replicate 15 0, (clock 0 0 ^^ 6) s) \<and>
     (\<forall>m<8. bit b0 m = (2 \<le> m \<and> keybit ((clock 0 0 ^^ (7 - m)) s)))"
proof -
  from gen_loop_zeroed [of 6 15 s] obtain A' where
    g: "gen_loop 6 0 (replicate 15 0) s = Some (A', (clock 0 0 ^^ 6) s)" and
    l: "length A' = 15" and
    b: "\<And>j. j < 120 \<Longrightarrow> stored_bit A' j = (j < 6 \<and> keybit ((clock 0 0 ^^ j) s))"
    by auto
  have rest: "A' ! k = 0" if "1 \<le> k" "k < 15" for k
  proof (rule byte_eqI)
    fix m :: nat
    assume m: "m < 8"
    with that have "8 * k + (7 - m) < 120" "\<not> 8 * k + (7 - m) < 6"
      by linarith+
    then show "bit (A' ! k) m = bit (0 :: byte) m"
      by (simp only: stored_bit_at [OF m] b) simp
  qed
  have first: "bit (A' ! 0) m = (2 \<le> m \<and> keybit ((clock 0 0 ^^ (7 - m)) s))" if "m < 8" for m
  proof -
    from that have "7 - m < 120" "(7 - m < 6) = (2 \<le> m)"
      by linarith+
    then show ?thesis
      by (simp only: stored_bit_at [OF that, of A' 0] b mult_zero_right add_0)
  qed
  have "A' = A' ! 0 # replicate 14 0"
  proof (rule nth_equalityI)
    show "length A' = length (A' ! 0 # replicate 14 0)"
      using l by simp
    fix i
    assume "i < length A'"
    then show "A' ! i = (A' ! 0 # replicate 14 0) ! i"
      using l rest [of i] by (cases i) simp_all
  qed
  with g first show ?thesis
    by (auto simp add: run_def zero_loop_15 [OF assms])
qed


lemma gen_loop_bits:
  assumes "n \<le> 8 * m"
  shows "\<exists>A'. gen_loop n 0 (replicate m 0) s = Some (A', (clock 0 0 ^^ n) s) \<and>
     bits_of n A' = map (\<lambda>j. keybit ((clock 0 0 ^^ j) s)) [0..<n]"
proof -
  from gen_loop_zeroed [OF assms, of s] obtain A' where
    g: "gen_loop n 0 (replicate m 0) s = Some (A', (clock 0 0 ^^ n) s)" and
    b: "\<And>j. j < 8 * m \<Longrightarrow> stored_bit A' j = (j < n \<and> keybit ((clock 0 0 ^^ j) s))"
    by auto
  have "bits_of n A' = map (\<lambda>j. keybit ((clock 0 0 ^^ j) s)) [0..<n]"
    unfolding bits_of_def using assms by (intro map_cong refl) (simp add: b)
  with g show ?thesis by blast
qed

lemma keystream_append:
  "map (\<lambda>j. keybit ((clock 0 0 ^^ j) s)) [0..<m + n] =
   map (\<lambda>j. keybit ((clock 0 0 ^^ j) s)) [0..<m] @
   map (\<lambda>j. keybit ((clock 0 0 ^^ j) ((clock 0 0 ^^ m) s))) [0..<n]"
proof -
  have "map (\<lambda>j. keybit ((clock 0 0 ^^ j) ((clock 0 0 ^^ m) s))) [0..<n]
      = map (\<lambda>j. keybit ((clock 0 0 ^^ (j + m)) s)) [0..<n]"
    by (simp only: funpow_add o_apply)
  also have "\<dots> = map (\<lambda>j. keybit ((clock 0 0 ^^ j) s)) (map (\<lambda>j. j + m) [0..<n])"
    by (simp only: map_map o_def)
  also have "\<dots> = map (\<lambda>j. keybit ((clock 0 0 ^^ j) s)) [m..<m + n]"
    by (simp only: map_add_upt add.commute [of n m])
  finally show ?thesis
    using upt_add_eq_append [of 0 m n] by simp
qed

text \<open>The loop threads the state through: run for \<open>m + n\<close> bits it stores the
  \<open>m\<close> bits of a run from the same state followed by the \<open>n\<close> bits of a run from
  the state the first one leaves, which is the state after \<open>m\<close> clock steps.\<close>

lemma gen_loop_continues:
  assumes "m + n \<le> 8 * k" "m \<le> 8 * k1" "n \<le> 8 * k2"
  shows "\<exists>A A1 A2.
     gen_loop m 0 (replicate k1 0) s = Some (A1, (clock 0 0 ^^ m) s) \<and>
     gen_loop n 0 (replicate k2 0) ((clock 0 0 ^^ m) s) = Some (A2, (clock 0 0 ^^ (m + n)) s) \<and>
     gen_loop (m + n) 0 (replicate k 0) s = Some (A, (clock 0 0 ^^ (m + n)) s) \<and>
     bits_of m A1 = map (\<lambda>j. keybit ((clock 0 0 ^^ j) s)) [0..<m] \<and>
     bits_of n A2 = map (\<lambda>j. keybit ((clock 0 0 ^^ j) ((clock 0 0 ^^ m) s))) [0..<n] \<and>
     bits_of (m + n) A = bits_of m A1 @ bits_of n A2"
proof -
  let ?s' = "(clock 0 0 ^^ m) s"
  from gen_loop_bits [OF assms(2), of s] obtain A1 where
    a1: "gen_loop m 0 (replicate k1 0) s = Some (A1, ?s')"
      "bits_of m A1 = map (\<lambda>j. keybit ((clock 0 0 ^^ j) s)) [0..<m]"
    by blast
  from gen_loop_bits [OF assms(3), of ?s'] obtain A2 where
    a2: "gen_loop n 0 (replicate k2 0) ?s' = Some (A2, (clock 0 0 ^^ n) ?s')"
      "bits_of n A2 = map (\<lambda>j. keybit ((clock 0 0 ^^ j) ?s')) [0..<n]"
    by blast
  from gen_loop_bits [OF assms(1), of s] obtain A where
    a: "gen_loop (m + n) 0 (replicate k 0) s = Some (A, (clock 0 0 ^^ (m + n)) s)"
      "bits_of (m + n) A = map (\<lambda>j. keybit ((clock 0 0 ^^ j) s)) [0..<m + n]"
    by blast
  have "(clock 0 0 ^^ (m + n)) s = (clock 0 0 ^^ n) ?s'"
    by (simp only: add.commute [of m n] funpow_add o_apply)
  with a1 a2 a show ?thesis
    by (simp add: keystream_append)
qed

text \<open>
  C8. In the generation loop a bit is emitted before the clock step: for every starting
  state, stored bit number \<open>i\<close> (\<open>i = 0, 1, 2, \<dots>\<close>) is the output bit of the state
  reached after exactly \<open>i\<close> clock steps with \<open>allP = 0\<close>, and it sits in byte
  \<open>i / 8\<close> of the zeroed buffer at bit position \<open>7 - i mod 8\<close>. This holds for
  \<open>run\<close>, which zeroes its buffers and runs the loop for 6 bits, and for the loop
  run for any number \<open>n\<close> of bits on a zeroed buffer that has room for them.
\<close>

theorem emission_before_clock:
  "(length AtoB = 15 \<and> length BtoA = 15 \<longrightarrow>
      (\<exists>A' B'. run AtoB BtoA s = Some (A', B', (clock 0 0 ^^ 6) s) \<and>
         (\<forall>i<6. bit (A' ! (i div 8)) (7 - i mod 8) = (fst (getbit ((clock 0 0 ^^ i) s)) = 1)))) \<and>
   (n \<le> 8 * m \<longrightarrow>
      (\<exists>A'. gen_loop n 0 (replicate m 0) s = Some (A', (clock 0 0 ^^ n) s) \<and>
         (\<forall>i<n. bit (A' ! (i div 8)) (7 - i mod 8) = (fst (getbit ((clock 0 0 ^^ i) s)) = 1))))"
proof (intro conjI impI)
  assume "length AtoB = 15 \<and> length BtoA = 15"
  then have z: "zero_loop 0 AtoB BtoA = Some (replicate 15 0, replicate 15 0)"
    by (simp add: zero_loop_15)
  from gen_loop_zeroed [of 6 15 s] obtain A' where
    g: "gen_loop 6 0 (replicate 15 0) s = Some (A', (clock 0 0 ^^ 6) s)" and
    sb: "\<And>j. j < 120 \<Longrightarrow> stored_bit A' j = (j < 6 \<and> keybit ((clock 0 0 ^^ j) s))"
    by auto
  have r: "run AtoB BtoA s = Some (A', replicate 15 0, (clock 0 0 ^^ 6) s)"
    by (simp add: run_def z g)
  have "bit (A' ! (i div 8)) (7 - i mod 8) = (fst (getbit ((clock 0 0 ^^ i) s)) = 1)"
    if "i < 6" for i
    using that sb [of i] unfolding stored_bit_def keybit_def by simp
  with r show "\<exists>A' B'. run AtoB BtoA s = Some (A', B', (clock 0 0 ^^ 6) s) \<and>
      (\<forall>i<6. bit (A' ! (i div 8)) (7 - i mod 8) = (fst (getbit ((clock 0 0 ^^ i) s)) = 1))"
    by blast
next
  assume le: "n \<le> 8 * m"
  from gen_loop_zeroed [OF this, of s] obtain A' where
    g: "gen_loop n 0 (replicate m 0) s = Some (A', (clock 0 0 ^^ n) s)" and
    sb: "\<And>j. j < 8 * m \<Longrightarrow> stored_bit A' j = (j < n \<and> keybit ((clock 0 0 ^^ j) s))"
    by auto
  have "bit (A' ! (i div 8)) (7 - i mod 8) = (fst (getbit ((clock 0 0 ^^ i) s)) = 1)"
    if "i < n" for i
    using that le sb [of i] unfolding stored_bit_def keybit_def by simp
  with g show "\<exists>A'. gen_loop n 0 (replicate m 0) s = Some (A', (clock 0 0 ^^ n) s) \<and>
      (\<forall>i<n. bit (A' ! (i div 8)) (7 - i mod 8) = (fst (getbit ((clock 0 0 ^^ i) s)) = 1))"
    by blast
qed

theorem emission_before_clock_witness:
  "length (replicate 15 (3 :: byte)) = 15 \<and> length (replicate 15 (9 :: byte)) = 15 \<and>
   (\<exists>A' B'. run (replicate 15 3) (replicate 15 9) \<lparr>R1 = 297169, R2 = 1472666, R3 = 6188815\<rparr>
        = Some (A', B', (clock 0 0 ^^ 6) \<lparr>R1 = 297169, R2 = 1472666, R3 = 6188815\<rparr>) \<and>
      (\<forall>i<6. bit (A' ! (i div 8)) (7 - i mod 8)
        = (fst (getbit ((clock 0 0 ^^ i) \<lparr>R1 = 297169, R2 = 1472666, R3 = 6188815\<rparr>)) = 1))) \<and>
   (114 :: nat) \<le> 8 * 15 \<and>
   (\<exists>A'. gen_loop 114 0 (replicate 15 0) \<lparr>R1 = 297169, R2 = 1472666, R3 = 6188815\<rparr>
        = Some (A', (clock 0 0 ^^ 114) \<lparr>R1 = 297169, R2 = 1472666, R3 = 6188815\<rparr>) \<and>
      (\<forall>i<114. bit (A' ! (i div 8)) (7 - i mod 8)
        = (fst (getbit ((clock 0 0 ^^ i) \<lparr>R1 = 297169, R2 = 1472666, R3 = 6188815\<rparr>)) = 1)))"
  using emission_before_clock [of "replicate 15 3" "replicate 15 9"
      "\<lparr>R1 = 297169, R2 = 1472666, R3 = 6188815\<rparr>" 114 15]
  by simp











text \<open>
  C10. For every register state and every two 15-byte buffers, \<open>run\<close> returns with all
  15 bytes of the B-to-A buffer zero and bytes 1 to 14 of the A-to-B buffer zero: it
  produces exactly 6 keystream bits, which sit in the top six bit positions of byte 0 of
  the A-to-B buffer (bit \<open>7 - i\<close> holds the output bit after \<open>i\<close> clock steps, bits 1
  and 0 stay clear), and it writes no keystream into the B-to-A buffer.
\<close>

theorem run_fills_six_bits_of_AtoB:
  "length AtoB = 15 \<Longrightarrow> length BtoA = 15 \<Longrightarrow>
   \<exists>b0. run AtoB BtoA s = Some (b0 # replicate 14 0, replicate 15 0, (clock 0 0 ^^ 6) s) \<and>
     (\<forall>m<8. bit b0 m = (2 \<le> m \<and> fst (getbit ((clock 0 0 ^^ (7 - m)) s)) = 1))"
  using run_15 [of AtoB BtoA s] by (simp only: keybit_def)

theorem run_fills_six_bits_of_AtoB_witness:
  "length (replicate 15 (3 :: byte)) = 15 \<and> length (replicate 15 (9 :: byte)) = 15 \<and>
   (\<exists>b0. run (replicate 15 3) (replicate 15 9) \<lparr>R1 = 297169, R2 = 1472666, R3 = 6188815\<rparr>
        = Some (b0 # replicate 14 0, replicate 15 0,
            (clock 0 0 ^^ 6) \<lparr>R1 = 297169, R2 = 1472666, R3 = 6188815\<rparr>) \<and>
      (\<forall>m<8. bit b0 m = (2 \<le> m \<and>
         fst (getbit ((clock 0 0 ^^ (7 - m)) \<lparr>R1 = 297169, R2 = 1472666, R3 = 6188815\<rparr>)) = 1)))"
  using run_fills_six_bits_of_AtoB [of "replicate 15 3" "replicate 15 9"
      "\<lparr>R1 = 297169, R2 = 1472666, R3 = 6188815\<rparr>"]
  by simp

end
